theory Spec2Isabelle
  imports Main
begin

section \<open>Python strings\<close>

text \<open>
  A Python \<open>str\<close> is a sequence of Unicode code points, so a text is modelled as a list
  of code points (natural numbers) and \<open>len\<close> is \<open>length\<close>.  ASCII literals of the source
  are written \<open>ustr ''...''\<close>.
\<close>

type_synonym str = "nat list"

definition ustr :: "string \<Rightarrow> str" where
  "ustr s = map of_char s"

text \<open>
  The line boundaries of \<open>str.splitlines\<close>: LF, VT, FF, CR, FS, GS, RS, NEL, LS and PS
  (CR LF counts as one boundary, see \<open>skip_break\<close>).
\<close>

definition is_linebreak :: "nat \<Rightarrow> bool" where
  "is_linebreak c \<longleftrightarrow> c \<in> {10, 11, 12, 13, 28, 29, 30, 133, 8232, 8233}"

text \<open>The code points for which \<open>str.isspace\<close> holds; \<open>str.strip()\<close> removes exactly these.\<close>

definition is_space :: "nat \<Rightarrow> bool" where
  "is_space c \<longleftrightarrow>
     (9 \<le> c \<and> c \<le> 13) \<or> (28 \<le> c \<and> c \<le> 32) \<or> c = 133 \<or> c = 160 \<or> c = 5760 \<or>
     (8192 \<le> c \<and> c \<le> 8202) \<or> c = 8232 \<or> c = 8233 \<or> c = 8239 \<or> c = 8287 \<or> c = 12288"

definition strip :: "str \<Rightarrow> str" where
  "strip s = rev (dropWhile is_space (rev (dropWhile is_space s)))"

definition startswith :: "str \<Rightarrow> str \<Rightarrow> bool" where
  "startswith s p \<longleftrightarrow> take (length p) s = p"

definition endswith :: "str \<Rightarrow> str \<Rightarrow> bool" where
  "endswith s p \<longleftrightarrow> drop (length s - length p) s = p \<and> length p \<le> length s"

text \<open>\<open>p in s\<close>: the text \<open>p\<close> occurs in \<open>s\<close> as a contiguous piece.\<close>

fun contains :: "str \<Rightarrow> str \<Rightarrow> bool" where
  "contains [] p = (p = [])"
| "contains (c # cs) p = (startswith (c # cs) p \<or> contains cs p)"

text \<open>
  \<open>skip_break\<close> steps over the line boundary at the head of the rest of the text: two code
  points for CR LF, one otherwise.
\<close>

fun skip_break :: "str \<Rightarrow> str" where
  "skip_break [] = []"
| "skip_break [c] = []"
| "skip_break (c # d # ds) = (if c = 13 \<and> d = 10 then ds else d # ds)"

text \<open>
  \<open>str.splitlines()\<close> without \<open>keepends\<close>: while text remains, the line runs up to the next
  boundary (or the end), and the boundary is skipped.  A text that ends in a boundary has
  no empty last line, and the empty text has no line.
\<close>

function splitlines :: "str \<Rightarrow> str list" where
  "splitlines s =
     (if s = [] then []
      else takeWhile (\<lambda>c. \<not> is_linebreak c) s
             # splitlines (skip_break (dropWhile (\<lambda>c. \<not> is_linebreak c) s)))"
  by pat_completeness auto
termination
proof (relation "measure length")
  show "wf (measure length)" by simp
next
  fix s :: str
  assume ne: "s \<noteq> []"
  define r where "r = dropWhile (\<lambda>c. \<not> is_linebreak c) s"
  have le: "length r \<le> length s"
    unfolding r_def by (rule length_dropWhile_le)
  have "length (skip_break r) < length s"
  proof (cases r)
    case Nil
    with ne show ?thesis by simp
  next
    case (Cons c cs)
    have "length (skip_break (c # cs)) < length (c # cs)"
      by (cases cs) auto
    with le Cons show ?thesis by simp
  qed
  then show "(skip_break (dropWhile (\<lambda>c. \<not> is_linebreak c) s), s) \<in> measure length"
    unfolding r_def by simp
qed

declare splitlines.simps [simp del]

text \<open>\<open>sep.join(xs)\<close>\<close>

fun join :: "str \<Rightarrow> str list \<Rightarrow> str" where
  "join sep [] = []"
| "join sep [x] = x"
| "join sep (x # y # ys) = x @ sep @ join sep (y # ys)"

section \<open>The fenced-block extractor\<close>

definition fence :: str where
  "fence = [96, 96, 96]"

definition fence_python :: str where
  "fence_python = fence @ ustr ''python''"

text \<open>
  The loop of \<open>extract_code_from_markdown\<close> over the lines, with its two variables
  \<open>in_code_block\<close> and \<open>code_lines\<close>; \<open>continue\<close> is the recursive call on the next line.
\<close>

fun scan_lines :: "str list \<Rightarrow> bool \<Rightarrow> str list \<Rightarrow> str list" where
  "scan_lines [] in_code_block code_lines = code_lines"
| "scan_lines (line # rest) in_code_block code_lines =
     (if startswith (strip line) fence_python then scan_lines rest True code_lines
      else if startswith (strip line) fence \<and> in_code_block then scan_lines rest False code_lines
      else if in_code_block then scan_lines rest in_code_block (code_lines @ [line])
      else scan_lines rest in_code_block code_lines)"

definition extract_code_from_markdown :: "str \<Rightarrow> str" where
  "extract_code_from_markdown text = join [10] (scan_lines (splitlines text) False [])"

section \<open>The final cleanup of repair output\<close>

text \<open>
  \<open>s.replace(old, new)\<close>: the occurrences of \<open>old\<close> are found from the left and do not
  overlap; with an empty \<open>old\<close>, \<open>new\<close> is put before every code point and at the end.
\<close>

function replace :: "str \<Rightarrow> str \<Rightarrow> str \<Rightarrow> str" where
  "replace s old new =
     (if old = [] then new @ concat (map (\<lambda>c. c # new) s)
      else if s = [] then []
      else if startswith s old then new @ replace (drop (length old) s) old new
      else hd s # replace (tl s) old new)"
  by pat_completeness auto
termination
  by (relation "measure (\<lambda>(s, old, new). length s)") auto

declare replace.simps [simp del]

text \<open>\<open>GeminiModel.sanitize_generated_text\<close>\<close>

definition sanitize_generated_text :: "str \<Rightarrow> str" where
  "sanitize_generated_text text = strip (replace (replace text fence_python []) fence [])"

section \<open>Exceptions, log records and backend responses\<close>

text \<open>
  The exceptions the program meets, all instances of \<open>Exception\<close>.  A constructor stands
  for the class and its subclasses, as \<open>except\<close> and \<open>isinstance\<close> see them;
  \<open>TimeoutError\<close> is \<open>asyncio.TimeoutError\<close>, \<open>RetryError\<close> is the error the retry decorator
  raises around the last failure, \<open>OtherException\<close> is any other class.
\<close>

datatype exn =
    ResourceExhausted
  | TimeoutError
  | AttributeError
  | TypeError
  | KeyError
  | IndexError
  | SyntaxError
  | FileNotFoundError
  | FileExistsError
  | RetryError exn
  | OtherException nat

datatype level = DEBUG | INFO | WARNING | ERROR

text \<open>One constructor for each logger call of the source, with the values it formats.\<close>

datatype message =
    QuotaExceeded
  | ErrorOccurredRetrying exn
  | ResponseTextNotFound
  | SrcDirMissing str
  | NoPythonFiles
  | FoundPythonFiles
  | ListedFile str
  | GeneratedTestCode str str
  | EmptyTestCode str
  | TestCodeGenerated str
  | GenerationError str exn
  | RunningTests
  | TestRunError str exn
  | TestResults
  | PassedCount nat
  | FailedCount nat
  | SyntaxErrorInFix str exn
  | Fixed str
  | FixFailed str exn
  | Finished

type_synonym log_record = "level \<times> message"

text \<open>
  The values a backend response is probed for: \<open>None\<close>, a string, a list, a \<open>dict\<close> with
  string keys, and an object that carries attributes.  Only objects have the attributes
  \<open>generations\<close>, \<open>text\<close> and \<open>choices\<close>; the built-in types do not.
\<close>

datatype pyval =
    PNone
  | PStr str
  | PList "pyval list"
  | PDict "(str \<times> pyval) list"
  | PObj "(str \<times> pyval) list"

fun getattr :: "pyval \<Rightarrow> str \<Rightarrow> pyval option" where
  "getattr (PObj attrs) name = map_of attrs name"
| "getattr v name = None"

definition hasattr :: "pyval \<Rightarrow> str \<Rightarrow> bool" where
  "hasattr v name \<longleftrightarrow> getattr v name \<noteq> None"

text \<open>\<open>len(v)\<close>: an attribute object and \<open>None\<close> have no length.\<close>

fun len :: "pyval \<Rightarrow> exn + nat" where
  "len (PStr s) = Inr (length s)"
| "len (PList xs) = Inr (length xs)"
| "len (PDict d) = Inr (length (remdups (map fst d)))"
| "len (PObj attrs) = Inl TypeError"
| "len PNone = Inl TypeError"

text \<open>\<open>v[0]\<close>\<close>

fun item0 :: "pyval \<Rightarrow> exn + pyval" where
  "item0 (PList []) = Inl IndexError"
| "item0 (PList (x # xs)) = Inr x"
| "item0 (PStr []) = Inl IndexError"
| "item0 (PStr (c # cs)) = Inr (PStr [c])"
| "item0 (PDict d) = Inl KeyError"
| "item0 (PObj attrs) = Inl TypeError"
| "item0 PNone = Inl TypeError"

text \<open>\<open>v.text\<close>\<close>

definition attr_text :: "pyval \<Rightarrow> exn + pyval" where
  "attr_text v = (case getattr v (ustr ''text'') of None \<Rightarrow> Inl AttributeError | Some t \<Rightarrow> Inr t)"

text \<open>
  Calling a method the value does not have raises \<open>AttributeError\<close>; an attribute of that
  name on an object is data, and calling it raises \<open>TypeError\<close>.
\<close>

definition no_method :: "pyval \<Rightarrow> str \<Rightarrow> exn" where
  "no_method v name = (if hasattr v name then TypeError else AttributeError)"

text \<open>\<open>v.get('text', '')\<close>\<close>

fun get_text :: "pyval \<Rightarrow> exn + pyval" where
  "get_text (PDict d) = Inr (case map_of d (ustr ''text'') of None \<Rightarrow> PStr [] | Some t \<Rightarrow> t)"
| "get_text v = Inl (no_method v (ustr ''get''))"

text \<open>\<open>hasattr(response, name) and len(getattr(response, name)) > 0\<close>, where \<open>len\<close> may raise.\<close>

definition has_nonempty :: "pyval \<Rightarrow> str \<Rightarrow> exn + bool" where
  "has_nonempty response name =
     (case getattr response name of
        None \<Rightarrow> Inr False
      | Some xs \<Rightarrow> (case len xs of Inl e \<Rightarrow> Inl e | Inr n \<Rightarrow> Inr (n > 0)))"

text \<open>\<open>getattr(response, name)[0].text\<close>\<close>

definition first_text :: "pyval \<Rightarrow> str \<Rightarrow> exn + pyval" where
  "first_text response name =
     (case getattr response name of
        None \<Rightarrow> Inl AttributeError
      | Some xs \<Rightarrow> (case item0 xs of Inl e \<Rightarrow> Inl e | Inr x \<Rightarrow> attr_text x))"

text \<open>
  The branch \<open>isinstance(response, dict)\<close> of \<open>extract_text_from_response\<close>.  Its inner
  \<open>if\<close>/\<open>elif\<close> has no \<open>else\<close>: a dict with neither a non-empty \<open>generations\<close> list nor a
  \<open>text\<close> key leaves the chain, and the function returns \<open>None\<close>.
\<close>

definition from_dict :: "(str \<times> pyval) list \<Rightarrow> exn + pyval" where
  "from_dict d =
     (case map_of d (ustr ''generations'') of
        Some (PList (g # gs)) \<Rightarrow> get_text g
      | _ \<Rightarrow> (case map_of d (ustr ''text'') of Some t \<Rightarrow> Inr t | None \<Rightarrow> Inr PNone))"

text \<open>
  \<open>GeminiModel.extract_text_from_response\<close>: what it returns or raises, and the log records
  it writes.
\<close>

definition extract_text_from_response :: "pyval \<Rightarrow> (exn + pyval) \<times> log_record list" where
  "extract_text_from_response response =
     (case has_nonempty response (ustr ''generations'') of
        Inl e \<Rightarrow> (Inl e, [])
      | Inr True \<Rightarrow> (first_text response (ustr ''generations''), [])
      | Inr False \<Rightarrow>
          (case getattr response (ustr ''text'') of
             Some t \<Rightarrow> (Inr t, [])
           | None \<Rightarrow>
               (case response of
                  PDict d \<Rightarrow> (from_dict d, [])
                | _ \<Rightarrow>
                    (case has_nonempty response (ustr ''choices'') of
                       Inl e \<Rightarrow> (Inl e, [])
                     | Inr True \<Rightarrow> (first_text response (ustr ''choices''), [])
                     | Inr False \<Rightarrow> (Inl AttributeError, [(ERROR, ResponseTextNotFound)])))))"

section \<open>The world of a run\<close>

text \<open>
  What the program reads from outside, fixed for one run: the directory of the script,
  whether \<open>os.path.exists(src_dir)\<close> holds, the triples \<open>os.walk(src_dir)\<close> yields, the
  backend (its answer to the \<open>k\<close>-th call of the run, for a prompt: a response or an
  exception), the test runner (its verdict on the \<open>k\<close>-th suite run, for the files on disk
  and a path: \<open>wasSuccessful()\<close> or an exception), the line \<open>input()\<close> returns,
  \<open>compile\<close> (the exception it raises on a text, if any), and the exception \<open>os.makedirs\<close>
  raises for a reason the store does not show (no permission, a read-only disk), if any.
\<close>

record env =
  script_dir :: str
  src_exists :: bool
  walk :: "(str \<times> str list \<times> str list) list"
  backend :: "nat \<Rightarrow> str \<Rightarrow> exn + pyval"
  runner :: "nat \<Rightarrow> (str \<rightharpoonup> str) \<Rightarrow> str \<Rightarrow> exn + bool"
  approval :: str
  compile_source :: "str \<Rightarrow> exn option"
  makedirs_error :: "exn option"

text \<open>
  What the program changes: the content of the files by path, the log, the number of
  backend calls and suite runs made, and the delays slept between attempts.  The store
  holds regular files only: a directory that exists or is created leaves it as it is.
  Writing a file and running a suite are taken to succeed as far as the store goes.
\<close>

record state =
  files :: "str \<rightharpoonup> str"
  log :: "log_record list"
  calls :: nat
  runs :: nat
  sleeps :: "nat list"

definition logger :: "level \<Rightarrow> message \<Rightarrow> state \<Rightarrow> state" where
  "logger lvl msg st = st\<lparr>log := log st @ [(lvl, msg)]\<rparr>"

definition write_file :: "str \<Rightarrow> str \<Rightarrow> state \<Rightarrow> state" where
  "write_file path content st = st\<lparr>files := (files st)(path \<mapsto> content)\<rparr>"

text \<open>
  \<open>os.makedirs(path, exist_ok=True)\<close>: the exception it raises, if any.  A path that is a
  regular file gives \<open>FileExistsError\<close> (\<open>exist_ok\<close> excuses an existing directory only);
  otherwise it fails as the world says, or succeeds, and the store of files is as before.
\<close>

definition makedirs :: "env \<Rightarrow> str \<Rightarrow> state \<Rightarrow> exn option" where
  "makedirs w path st =
     (if files st path \<noteq> None then Some FileExistsError else makedirs_error w)"

section \<open>The model client\<close>

text \<open>
  The body of \<open>GeminiModel.generate_test_code\<close>, one attempt: the backend call and the
  normalization are inside the \<open>try\<close>; a quota error is logged as an error, any other
  exception as a warning, and both are raised again.
\<close>

definition reraise_logged :: "exn \<Rightarrow> state \<Rightarrow> (exn + pyval) \<times> state" where
  "reraise_logged e st =
     (if e = ResourceExhausted then (Inl e, logger ERROR QuotaExceeded st)
      else (Inl e, logger WARNING (ErrorOccurredRetrying e) st))"

definition attempt :: "env \<Rightarrow> str \<Rightarrow> state \<Rightarrow> (exn + pyval) \<times> state" where
  "attempt w prompt st =
     (let st1 = st\<lparr>calls := calls st + 1\<rparr> in
      case backend w (calls st) prompt of
        Inl e \<Rightarrow> reraise_logged e st1
      | Inr response \<Rightarrow>
          (case extract_text_from_response response of
             (Inl e, recs) \<Rightarrow> reraise_logged e (st1\<lparr>log := log st1 @ recs\<rparr>)
           | (Inr t, recs) \<Rightarrow> (Inr t, st1\<lparr>log := log st1 @ recs\<rparr>)))"

text \<open>
  The decorator \<open>@retry(stop=stop_after_attempt(3), wait=wait_fixed(5),
  retry=retry_if_exception_type((ResourceExhausted, asyncio.TimeoutError)))\<close>.
\<close>

definition stop_after_attempt :: "nat \<Rightarrow> nat \<Rightarrow> bool" where
  "stop_after_attempt max_attempt_number attempt_number \<longleftrightarrow> attempt_number \<ge> max_attempt_number"

definition wait_fixed :: "nat \<Rightarrow> nat" where
  "wait_fixed seconds = seconds"

definition retry_if_exception_type :: "exn \<Rightarrow> bool" where
  "retry_if_exception_type e \<longleftrightarrow> e = ResourceExhausted \<or> e = TimeoutError"

text \<open>
  The loop of the decorator, attempts numbered from 1.  An attempt that returns ends the
  call with its value.  An attempt that raises an exception the \<open>retry\<close> predicate rejects
  ends it with that exception.  Otherwise, when \<open>stop\<close> holds the call raises \<open>RetryError\<close>
  around the exception, and when not it sleeps for \<open>wait\<close> and makes the next attempt.
\<close>

function retrying :: "env \<Rightarrow> str \<Rightarrow> nat \<Rightarrow> state \<Rightarrow> (exn + pyval) \<times> state" where
  "retrying w prompt attempt_number st =
     (case attempt w prompt st of
        (Inr t, st1) \<Rightarrow> (Inr t, st1)
      | (Inl e, st1) \<Rightarrow>
          if \<not> retry_if_exception_type e then (Inl e, st1)
          else if stop_after_attempt 3 attempt_number then (Inl (RetryError e), st1)
          else retrying w prompt (attempt_number + 1) (st1\<lparr>sleeps := sleeps st1 @ [wait_fixed 5]\<rparr>))"
  by pat_completeness auto
termination
  by (relation "measure (\<lambda>(w, prompt, attempt_number, st). 3 - attempt_number)")
     (auto simp: stop_after_attempt_def)

declare retrying.simps [simp del]

definition generate_test_code :: "env \<Rightarrow> str \<Rightarrow> state \<Rightarrow> (exn + pyval) \<times> state" where
  "generate_test_code w prompt st = retrying w prompt 1 st"

text \<open>
  The outcome of one attempt depends on the world, the prompt and the number of backend
  calls made before it: \<open>attempt_result w prompt k\<close> is what the attempt that makes call
  \<open>k\<close> returns or raises (lemma \<open>attempt_fst\<close>).  \<open>retried\<close> holds of the outcomes after which
  the decorator goes on.
\<close>

definition attempt_result :: "env \<Rightarrow> str \<Rightarrow> nat \<Rightarrow> exn + pyval" where
  "attempt_result w prompt k =
     (case backend w k prompt of
        Inl e \<Rightarrow> Inl e
      | Inr response \<Rightarrow> fst (extract_text_from_response response))"

definition retried :: "exn + pyval \<Rightarrow> bool" where
  "retried r = (case r of Inl e \<Rightarrow> retry_if_exception_type e | Inr t \<Rightarrow> False)"

section \<open>Paths and discovery\<close>

text \<open>\<open>os.path.join(a, b)\<close> and \<open>os.path.basename(p)\<close>, for POSIX paths (separator \<open>/\<close>, code 47).\<close>

definition path_join :: "str \<Rightarrow> str \<Rightarrow> str" where
  "path_join a b =
     (if startswith b [47] then b
      else if a = [] \<or> endswith a [47] then a @ b
      else a @ [47] @ b)"

definition basename :: "str \<Rightarrow> str" where
  "basename p = rev (takeWhile (\<lambda>c. c \<noteq> 47) (rev p))"

definition src_dir :: "env \<Rightarrow> str" where
  "src_dir w = path_join (script_dir w) (ustr ''src'')"

definition test_dir :: "env \<Rightarrow> str" where
  "test_dir w = path_join (script_dir w) (ustr ''tests'')"

text \<open>The test of the discovery loop: \<open>file.endswith('.py') and file != '__init__.py'\<close>.\<close>

definition qualifies :: "str \<Rightarrow> bool" where
  "qualifies file \<longleftrightarrow> endswith file (ustr ''.py'') \<and> file \<noteq> ustr ''__init__.py''"

text \<open>The two nested loops over \<open>os.walk(src_dir)\<close> that fill \<open>python_files\<close>.\<close>

definition discover :: "env \<Rightarrow> str list" where
  "discover w =
     concat (map (\<lambda>(root, dirs, files). map (path_join root) (filter qualifies files)) (walk w))"

section \<open>The generation stage\<close>

text \<open>
  The prompt: the instruction of the source (Japanese, given by its code points), two
  newlines, the module's text inside a fence tagged \<open>python\<close>.
\<close>

definition generation_prompt :: "str \<Rightarrow> str" where
  "generation_prompt code =
     [20197, 19979, 12398, 80, 121, 116, 104, 111, 110, 12467, 12540, 12489, 12395, 23550,
      12377, 12427, 49, 48, 48, 37, 32178, 32645, 29575, 12398, 21336, 20307, 12486, 12473,
      12488, 12467, 12540, 12489, 12398, 12415, 12434, 29983, 25104, 12375, 12390, 12367,
      12384, 12373, 12356, 12290, 12467, 12513, 12531, 12488, 12420, 35500, 26126, 25991,
      12399, 21547, 12417, 12394, 12356, 12391, 12367, 12384, 12373, 12356, 12290, 10, 10]
     @ fence_python @ [10] @ code @ [10] @ fence"

definition test_file_path :: "env \<Rightarrow> str \<Rightarrow> str" where
  "test_file_path w file_path = path_join (test_dir w) (ustr ''test_'' @ basename file_path)"

text \<open>
  \<open>extract_code_from_markdown\<close> applied to what the client returned: the call of
  \<open>text.splitlines()\<close> raises when the value is not a string.
\<close>

fun extract_code :: "pyval \<Rightarrow> exn + str" where
  "extract_code (PStr s) = Inr (extract_code_from_markdown s)"
| "extract_code v = Inl (no_method v (ustr ''splitlines''))"

text \<open>
  The \<open>try\<close> block of the generation loop for one module, with its \<open>except Exception\<close>:
  \<open>created\<close> is \<open>test_files_created\<close>.
\<close>

definition generate_for :: "env \<Rightarrow> str \<Rightarrow> str \<Rightarrow> str list \<times> state \<Rightarrow> str list \<times> state" where
  "generate_for w file_path code cs =
     (case cs of (created, st) \<Rightarrow>
      (case generate_test_code w (generation_prompt code) st of
         (Inl e, st1) \<Rightarrow> (created, logger ERROR (GenerationError file_path e) st1)
       | (Inr v, st1) \<Rightarrow>
           (case extract_code v of
              Inl e \<Rightarrow> (created, logger ERROR (GenerationError file_path e) st1)
            | Inr test_code \<Rightarrow>
                (let st2 = logger DEBUG (GeneratedTestCode file_path test_code) st1 in
                 if strip test_code = [] then (created, logger ERROR (EmptyTestCode file_path) st2)
                 else
                   (let st3 = write_file (test_file_path w file_path) test_code st2;
                        st4 = logger INFO (TestCodeGenerated (test_file_path w file_path)) st3
                    in (created @ [test_file_path w file_path], st4))))))"

text \<open>
  The loop over \<open>python_files\<close>.  Reading the module is outside the \<open>try\<close>: a file that
  cannot be read ends the run with the exception.
\<close>

fun generation_stage :: "env \<Rightarrow> str list \<Rightarrow> str list \<times> state \<Rightarrow> (exn + str list) \<times> state" where
  "generation_stage w [] cs = (Inr (fst cs), snd cs)"
| "generation_stage w (file_path # rest) cs =
     (case files (snd cs) file_path of
        None \<Rightarrow> (Inl FileNotFoundError, snd cs)
      | Some code \<Rightarrow> generation_stage w rest (generate_for w file_path code cs))"

section \<open>Execution and report\<close>

text \<open>\<open>d[k] = v\<close> on an insertion-ordered dict.\<close>

fun dict_set :: "('k \<times> 'v) list \<Rightarrow> 'k \<Rightarrow> 'v \<Rightarrow> ('k \<times> 'v) list" where
  "dict_set [] k v = [(k, v)]"
| "dict_set ((k', v') # d) k v = (if k' = k then (k, v) # d else (k', v') # dict_set d k v)"

definition run_test :: "env \<Rightarrow> (str \<times> bool) list \<times> state \<Rightarrow> str \<Rightarrow> (str \<times> bool) list \<times> state" where
  "run_test w rs test_file =
     (case rs of (test_results, st) \<Rightarrow>
      (let st1 = st\<lparr>runs := runs st + 1\<rparr> in
       case runner w (runs st) (files st) test_file of
         Inr ok \<Rightarrow> (dict_set test_results test_file ok, st1)
       | Inl e \<Rightarrow> (dict_set test_results test_file False,
                    logger ERROR (TestRunError test_file e) st1)))"

definition execution_stage :: "env \<Rightarrow> str list \<Rightarrow> state \<Rightarrow> (str \<times> bool) list \<times> state" where
  "execution_stage w created st = foldl (run_test w) ([], st) created"

definition log_files :: "str list \<Rightarrow> state \<Rightarrow> state" where
  "log_files paths st = foldl (\<lambda>s p. logger INFO (ListedFile p) s) st paths"

definition report :: "str list \<Rightarrow> str list \<Rightarrow> state \<Rightarrow> state" where
  "report passed_tests failed_tests st =
     log_files failed_tests (logger INFO (FailedCount (length failed_tests))
       (log_files passed_tests (logger INFO (PassedCount (length passed_tests))
         (logger INFO TestResults st))))"

section \<open>The repair stage\<close>

definition repair_prompt :: "str \<Rightarrow> str" where
  "repair_prompt test_code =
     [20197, 19979, 12398, 12486, 12473, 12488, 12467, 12540, 12489, 12399, 22833, 25943,
      12375, 12390, 12356, 12414, 12377, 12290, 21407, 22240, 12434, 29305, 23450, 12375,
      12289, 20803, 12398, 12467, 12540, 12489, 12392, 12486, 12473, 12488, 12467, 12540,
      12489, 12434, 20462, 27491, 12375, 12390, 12367, 12384, 12373, 12356, 12290, 10, 10]
     @ fence_python @ [10] @ test_code @ [10] @ fence"

text \<open>
  The outer \<open>try\<close> block for one failed test file, with the inner \<open>try\<close> around \<open>compile\<close>:
  a \<open>SyntaxError\<close> is logged and the file skipped (\<open>continue\<close>); any other exception goes
  to the outer handler; only then the file is written.
\<close>

definition repair_one :: "env \<Rightarrow> str \<Rightarrow> str \<Rightarrow> state \<Rightarrow> state" where
  "repair_one w test_file test_code st =
     (case generate_test_code w (repair_prompt test_code) st of
        (Inl e, st1) \<Rightarrow> logger ERROR (FixFailed test_file e) st1
      | (Inr v, st1) \<Rightarrow>
          (case extract_code v of
             Inl e \<Rightarrow> logger ERROR (FixFailed test_file e) st1
           | Inr extracted \<Rightarrow>
               (let fixed_code = sanitize_generated_text extracted in
                case compile_source w fixed_code of
                  Some e \<Rightarrow>
                    if e = SyntaxError then logger ERROR (SyntaxErrorInFix test_file e) st1
                    else logger ERROR (FixFailed test_file e) st1
                | None \<Rightarrow> logger INFO (Fixed test_file) (write_file test_file fixed_code st1))))"

text \<open>The loop over \<open>failed_tests\<close>; reading the test file is outside the \<open>try\<close>.\<close>

fun repair_loop :: "env \<Rightarrow> str list \<Rightarrow> state \<Rightarrow> exn option \<times> state" where
  "repair_loop w [] st = (None, st)"
| "repair_loop w (test_file # rest) st =
     (case files st test_file of
        None \<Rightarrow> (Some FileNotFoundError, st)
      | Some test_code \<Rightarrow> repair_loop w rest (repair_one w test_file test_code st))"

text \<open>
  \<open>approval.lower()\<close> is compared with \<open>'yes'\<close>.  \<open>py_lower\<close> lowers the letters A to Z; no
  other code point has a lower-case form made of the letters of \<open>yes\<close>, so the comparison
  is the source's.
\<close>

definition py_lower :: "str \<Rightarrow> str" where
  "py_lower s = map (\<lambda>c. if 65 \<le> c \<and> c \<le> 90 then c + 32 else c) s"

definition repair_stage :: "env \<Rightarrow> str list \<Rightarrow> state \<Rightarrow> exn option \<times> state" where
  "repair_stage w failed_tests st =
     (if py_lower (approval w) = ustr ''yes'' then repair_loop w failed_tests st
      else (None, st))"

section \<open>The program\<close>

text \<open>
  How \<open>main\<close> ends: \<open>sys.exit(code)\<close>, a normal return, or an exception nothing catches.
  The process exit code is the argument of \<open>sys.exit\<close>, 0 after a return, 1 after an
  uncaught exception.  \<open>os.makedirs(test_dir, exist_ok=True)\<close> stands between the test for
  the source root and the discovery, outside every \<open>try\<close>.
\<close>

datatype outcome = Exit nat | Returned | Raised exn


definition main :: "env \<Rightarrow> state \<Rightarrow> outcome \<times> state" where
  "main w st =
     (if \<not> src_exists w then (Exit 1, logger ERROR (SrcDirMissing (src_dir w)) st)
      else
        (case makedirs w (test_dir w) st of
           Some e \<Rightarrow> (Raised e, st)
         | None \<Rightarrow>
             if discover w = [] then (Exit 0, logger WARNING NoPythonFiles st)
             else
               (case generation_stage w (discover w)
                       ([], log_files (discover w) (logger INFO FoundPythonFiles st)) of
                  (Inl e, st2) \<Rightarrow> (Raised e, st2)
                | (Inr test_files_created, st2) \<Rightarrow>
                    if test_files_created = [] then (Returned, logger INFO Finished st2)
                    else
                      (case execution_stage w test_files_created (logger INFO RunningTests st2) of
                         (test_results, st3) \<Rightarrow>
                           (let passed_tests = map fst (filter snd test_results);
                                failed_tests = map fst (filter (\<lambda>kv. \<not> snd kv) test_results);
                                st4 = report passed_tests failed_tests st3
                            in if failed_tests = [] then (Returned, logger INFO Finished st4)
                               else
                                 (case repair_stage w failed_tests st4 of
                                    (Some e, st5) \<Rightarrow> (Raised e, st5)
                                  | (None, st5) \<Rightarrow> (Returned, logger INFO Finished st5)))))))"

section \<open>Concrete worlds for the examples\<close>

definition quota_world :: env where
  "quota_world = \<lparr>script_dir = [], src_exists = True, walk = [],
     backend = (\<lambda>k prompt. Inl ResourceExhausted), runner = (\<lambda>k fs path. Inr True),
     approval = [], compile_source = (\<lambda>s. None), makedirs_error = None\<rparr>"

definition initial :: state where
  "initial = \<lparr>files = Map.empty, log = [], calls = 0, runs = 0, sleeps = []\<rparr>"

text \<open>
  A backend answer of the \<open>.text\<close> shape holding one fenced block, a world around it (the
  operator answers \<open>no\<close>, every suite fails, \<open>compile\<close> rejects everything), and its
  variants.
\<close>

definition reply :: pyval where
  "reply = PObj [(ustr ''text'', PStr (fence_python @ [10] @ ustr ''pass'' @ [10] @ fence))]"

definition base_world :: env where
  "base_world = \<lparr>script_dir = ustr ''/p'', src_exists = True,
     walk = [(ustr ''/p/src'', [], [ustr ''a.py'', ustr ''b.py''])],
     backend = (\<lambda>k prompt. Inr reply), runner = (\<lambda>k fs path. Inr False),
     approval = ustr ''no'', compile_source = (\<lambda>s. Some SyntaxError), makedirs_error = None\<rparr>"

definition fail_first :: env where
  "fail_first = base_world\<lparr>backend := (\<lambda>k prompt. if k = 0 then Inl (OtherException 0) else Inr reply)\<rparr>"

definition fail_second :: env where
  "fail_second = base_world\<lparr>backend := (\<lambda>k prompt. if k = 0 then Inr reply else Inl (OtherException 0))\<rparr>"

definition approving :: env where
  "approving = base_world\<lparr>approval := ustr ''YES''\<rparr>"

definition missing_root :: env where
  "missing_root = base_world\<lparr>src_exists := False\<rparr>"

definition only_init :: env where
  "only_init = base_world\<lparr>walk := [(ustr ''/p/src'', [ustr ''pkg''], [ustr ''notes.txt'']),
     (ustr ''/p/src/pkg'', [], [ustr ''__init__.py''])]\<rparr>"

definition two_modules :: state where
  "two_modules = initial\<lparr>files := [ustr ''/p/src/a.py'' \<mapsto> ustr ''x'', ustr ''/p/src/b.py'' \<mapsto> ustr ''y'']\<rparr>"

definition one_artifact :: state where
  "one_artifact = initial\<lparr>files := [ustr ''/p/tests/test_a.py'' \<mapsto> ustr ''old'']\<rparr>"

text \<open>A disk on which the path of the test directory is a regular file.\<close>

definition tests_is_file :: state where
  "tests_is_file = initial\<lparr>files := [ustr ''/p/tests'' \<mapsto> ustr ''notes'']\<rparr>"

section \<open>Properties of the text operations\<close>

lemma startswith_iff: "startswith s p \<longleftrightarrow> (\<exists>post. s = p @ post)"
proof
  assume "startswith s p"
  then have "s = p @ drop (length p) s"
    unfolding startswith_def by (metis append_take_drop_id)
  then show "\<exists>post. s = p @ post" ..
next
  assume "\<exists>post. s = p @ post"
  then show "startswith s p" unfolding startswith_def by auto
qed

lemma contains_iff: "contains s p \<longleftrightarrow> (\<exists>pre post. s = pre @ p @ post)"
proof (induction s)
  case Nil
  then show ?case by auto
next
  case (Cons c cs)
  show ?case
  proof
    assume "contains (c # cs) p"
    then consider "startswith (c # cs) p" | "contains cs p" by auto
    then show "\<exists>pre post. c # cs = pre @ p @ post"
    proof cases
      case 1
      then obtain post where "c # cs = p @ post" unfolding startswith_iff ..
      then have "c # cs = [] @ p @ post" by simp
      then show ?thesis by blast
    next
      case 2
      then obtain pre post where "cs = pre @ p @ post" using Cons.IH by blast
      then have "c # cs = (c # pre) @ p @ post" by simp
      then show ?thesis by blast
    qed
  next
    assume "\<exists>pre post. c # cs = pre @ p @ post"
    then obtain pre post where eq: "c # cs = pre @ p @ post" by blast
    show "contains (c # cs) p"
    proof (cases pre)
      case Nil
      with eq have "startswith (c # cs) p" unfolding startswith_iff by auto
      then show ?thesis by simp
    next
      case (Cons d ds)
      with eq have "cs = ds @ p @ post" by simp
      then have "contains cs p" using Cons.IH by blast
      then show ?thesis by simp
    qed
  qed
qed

lemma strip_piece: "\<exists>a b. s = a @ strip s @ b"
proof -
  define d where "d = dropWhile is_space s"
  have "rev (dropWhile is_space (rev d)) @ rev (takeWhile is_space (rev d))
      = rev (takeWhile is_space (rev d) @ dropWhile is_space (rev d))"
    by (simp only: rev_append)
  also have "\<dots> = d" by simp
  finally have "d = strip s @ rev (takeWhile is_space (rev d))"
    by (simp add: strip_def d_def)
  moreover have "s = takeWhile is_space s @ d" by (simp add: d_def)
  ultimately have "s = takeWhile is_space s @ strip s @ rev (takeWhile is_space (rev d))"
    by simp
  then show ?thesis by blast
qed

lemma skip_break_suffix: "\<exists>a. r = a @ skip_break r"
proof (induction r rule: skip_break.induct)
  case 1
  then show ?case by simp
next
  case (2 c)
  then show ?case by simp
next
  case (3 c d ds)
  have "c # d # ds = [c, d] @ ds" "c # d # ds = [c] @ d # ds" by simp_all
  then show ?case by (metis skip_break.simps(3))
qed

lemma splitlines_piece: "l \<in> set (splitlines t) \<Longrightarrow> \<exists>pre post. t = pre @ l @ post"
proof (induction t rule: splitlines.induct)
  case (1 s)
  show ?case
  proof (cases "s = []")
    case True
    with "1.prems" show ?thesis by (simp add: splitlines.simps)
  next
    case False
    define ln where "ln = takeWhile (\<lambda>c. \<not> is_linebreak c) s"
    define r where "r = dropWhile (\<lambda>c. \<not> is_linebreak c) s"
    have s: "s = ln @ r" by (simp add: ln_def r_def)
    from False "1.prems" have "l = ln \<or> l \<in> set (splitlines (skip_break r))"
      by (subst (asm) splitlines.simps) (simp add: ln_def r_def)
    then show ?thesis
    proof
      assume "l = ln"
      with s have "s = [] @ l @ r" by simp
      then show ?thesis by blast
    next
      assume "l \<in> set (splitlines (skip_break r))"
      then obtain pre post where "skip_break r = pre @ l @ post"
        using "1.IH" [OF False] unfolding r_def by blast
      moreover obtain a where "r = a @ skip_break r" using skip_break_suffix by blast
      ultimately have "s = (ln @ a @ pre) @ l @ post" using s by simp
      then show ?thesis by blast
    qed
  qed
qed

lemma splitlines_no_break: "l \<in> set (splitlines t) \<Longrightarrow> c \<in> set l \<Longrightarrow> \<not> is_linebreak c"
proof (induction t rule: splitlines.induct)
  case (1 s)
  show ?case
  proof (cases "s = []")
    case True
    with "1.prems" show ?thesis by (simp add: splitlines.simps)
  next
    case False
    from False "1.prems"(1)
    have "l = takeWhile (\<lambda>c. \<not> is_linebreak c) s
        \<or> l \<in> set (splitlines (skip_break (dropWhile (\<lambda>c. \<not> is_linebreak c) s)))"
      by (subst (asm) splitlines.simps) simp
    then show ?thesis
    proof
      assume "l = takeWhile (\<lambda>c. \<not> is_linebreak c) s"
      with "1.prems"(2) show ?thesis by (auto dest: set_takeWhileD)
    next
      assume "l \<in> set (splitlines (skip_break (dropWhile (\<lambda>c. \<not> is_linebreak c) s)))"
      then show ?thesis using "1.IH" [OF False] "1.prems"(2) by blast
    qed
  qed
qed

lemma fence_python_fence: "startswith s fence_python \<Longrightarrow> startswith s fence"
  unfolding startswith_iff fence_python_def by auto

lemma scan_lines_no_opener:
  "\<forall>l\<in>set ls. \<not> startswith (strip l) fence_python \<Longrightarrow> scan_lines ls False acc = acc"
  by (induction ls) auto

lemma scan_lines_body:
  "\<forall>l\<in>set ls. \<not> startswith (strip l) fence \<Longrightarrow> scan_lines (ls @ rest) True acc = scan_lines rest True (acc @ ls)"
  by (induction ls arbitrary: acc) (auto dest: fence_python_fence)

lemma scan_lines_sound:
  "l \<in> set (scan_lines ls b acc) \<Longrightarrow> l \<in> set acc \<or> (l \<in> set ls \<and> \<not> startswith (strip l) fence)"
proof (induction ls arbitrary: b acc)
  case Nil
  then show ?case by simp
next
  case (Cons x xs)
  show ?case
  proof (cases "startswith (strip x) fence_python")
    case True
    with Cons.prems have "l \<in> set (scan_lines xs True acc)" by simp
    from Cons.IH [OF this] show ?thesis by auto
  next
    case np: False
    show ?thesis
    proof (cases "startswith (strip x) fence \<and> b")
      case True
      with np Cons.prems have "l \<in> set (scan_lines xs False acc)" by simp
      from Cons.IH [OF this] show ?thesis by auto
    next
      case nf: False
      show ?thesis
      proof (cases b)
        case True
        with np nf Cons.prems have "l \<in> set (scan_lines xs True (acc @ [x]))" by simp
        from Cons.IH [OF this] True nf show ?thesis by auto
      next
        case False
        with np nf Cons.prems have "l \<in> set (scan_lines xs False acc)" by simp
        from Cons.IH [OF this] show ?thesis by auto
      qed
    qed
  qed
qed

lemma join_Cons: "join sep (x # xs) = (if xs = [] then x else x @ sep @ join sep xs)"
  by (cases xs) auto

lemma splitlines_join:
  "\<forall>l\<in>set ls. \<forall>c\<in>set l. \<not> is_linebreak c \<Longrightarrow> set (splitlines (join [10] ls)) \<subseteq> set ls"
proof (induction ls)
  case Nil
  then show ?case by (simp add: splitlines.simps)
next
  case (Cons x xs)
  from Cons.prems have nx: "\<forall>c\<in>set x. \<not> is_linebreak c" by simp
  show ?case
  proof (cases "xs = []")
    case True
    from nx have tw: "takeWhile (\<lambda>c. \<not> is_linebreak c) x = x"
      and dw: "dropWhile (\<lambda>c. \<not> is_linebreak c) x = []"
      by simp_all
    have "splitlines x = (if x = [] then [] else [x])"
      by (subst splitlines.simps) (simp add: tw dw splitlines.simps [of "[]"])
    with True show ?thesis by simp
  next
    case False
    let ?t = "join [10] xs"
    have lb: "is_linebreak 10" by (simp add: is_linebreak_def)
    have tw: "takeWhile (\<lambda>c. \<not> is_linebreak c) (x @ 10 # ?t) = x"
      using nx lb by simp
    have dw: "dropWhile (\<lambda>c. \<not> is_linebreak c) (x @ 10 # ?t) = 10 # ?t"
      using nx lb by simp
    have sk: "skip_break (10 # ?t) = ?t" by (cases ?t) auto
    have "splitlines (join [10] (x # xs)) = x # splitlines ?t"
      using False by (subst splitlines.simps) (simp add: join_Cons tw dw sk)
    moreover have "set (splitlines ?t) \<subseteq> set xs"
      using Cons.IH Cons.prems by simp
    ultimately show ?thesis by auto
  qed
qed


lemmas str_eval = ustr_def fence_def fence_python_def startswith_def endswith_def strip_def
  is_space_def is_linebreak_def splitlines.simps extract_code_from_markdown_def

text \<open>
  Claim C2, as the code has it.  The flag is set by a line that after trimming starts with
  the fence tagged \<open>python\<close> (a bare fence or one with another tag does not open a
  block); once set, it is cleared by a line that after trimming starts with a fence not
  tagged \<open>python\<close>.  For a text whose lines are: lines with no opener, an opener, the
  lines \<open>L1..Ln\<close> (none of which starts with a fence after trimming), a closing fence,
  and lines with no opener, the result is exactly \<open>L1..Ln\<close> joined by newline: verbatim,
  in order, blank lines included, fence lines excluded.
\<close>

theorem extract_one_block:
  assumes lines: "splitlines text = pre @ [opener] @ body @ [closer] @ post"
    and pre: "\<forall>l\<in>set pre. \<not> startswith (strip l) fence_python"
    and opener: "startswith (strip opener) fence_python"
    and body: "\<forall>l\<in>set body. \<not> startswith (strip l) fence"
    and closer: "startswith (strip closer) fence" "\<not> startswith (strip closer) fence_python"
    and post: "\<forall>l\<in>set post. \<not> startswith (strip l) fence_python"
  shows "extract_code_from_markdown text = join [10] body"
proof -
  have "scan_lines (pre @ [opener] @ body @ [closer] @ post) False [] =
        scan_lines ([opener] @ body @ [closer] @ post) False []"
    using pre by (induction pre) auto
  also have "\<dots> = scan_lines (body @ [closer] @ post) True []"
    using opener by simp
  also have "\<dots> = scan_lines ([closer] @ post) True ([] @ body)"
    using body by (rule scan_lines_body)
  also have "\<dots> = scan_lines post False body"
    using closer by simp
  also have "\<dots> = body"
    using post by (rule scan_lines_no_opener)
  finally show ?thesis
    by (simp add: extract_code_from_markdown_def lines)
qed

text \<open>
  The theorem at a text with a line before the block, an interior blank line, an indented
  line and a line after the block.
\<close>

theorem extract_one_block_witness:
  "extract_code_from_markdown
     (ustr ''Here:'' @ [10] @ fence_python @ [10] @ ustr ''a = 1'' @ [10, 10] @ ustr ''  b = 2''
        @ [10] @ fence @ [10] @ ustr ''Done.'')
   = ustr ''a = 1'' @ [10, 10] @ ustr ''  b = 2''"
  using extract_one_block [of
      "ustr ''Here:'' @ [10] @ fence_python @ [10] @ ustr ''a = 1'' @ [10, 10] @ ustr ''  b = 2''
        @ [10] @ fence @ [10] @ ustr ''Done.''"
      "[ustr ''Here:'']" fence_python "[ustr ''a = 1'', [], ustr ''  b = 2'']" fence "[ustr ''Done.'']"]
  by (simp add: ustr_def fence_def fence_python_def startswith_def strip_def
      is_space_def is_linebreak_def splitlines.simps)

text \<open>
  Claim C2 as stated fails for a bare opener: for the three lines fence, \<open>foo\<close>, fence the
  claim promises \<open>foo\<close>, and the code returns the empty text, since only a fence tagged
  \<open>python\<close> sets the flag.
\<close>

theorem bare_opener_counterexample:
  "extract_code_from_markdown (fence @ [10] @ ustr ''foo'' @ [10] @ fence) \<noteq> join [10] [ustr ''foo'']"
  by (simp add: str_eval)

text \<open>
  Claim C8: a text in which the fence marker does not occur is extracted to the empty
  text (not to the text itself).
\<close>

theorem extract_no_fence:
  assumes "\<not> contains text fence"
  shows "extract_code_from_markdown text = []"
proof -
  have "\<not> startswith (strip l) fence_python" if l: "l \<in> set (splitlines text)" for l
  proof
    assume "startswith (strip l) fence_python"
    then have "startswith (strip l) fence" by (rule fence_python_fence)
    then obtain post where sl: "strip l = fence @ post" unfolding startswith_iff ..
    obtain a b where "l = a @ strip l @ b" using strip_piece by blast
    moreover obtain p q where "text = p @ l @ q" using splitlines_piece [OF l] by blast
    ultimately have "text = (p @ a) @ fence @ (post @ b @ q)" using sl by simp
    then have "contains text fence" unfolding contains_iff by blast
    with assms show False by contradiction
  qed
  then have "scan_lines (splitlines text) False [] = []"
    by (intro scan_lines_no_opener) blast
  then show ?thesis by (simp add: extract_code_from_markdown_def)
qed

text \<open>
  The theorem at two lines of clean code.
\<close>

theorem extract_no_fence_witness:
  "\<not> contains (ustr ''x = 1'' @ [10] @ ustr ''print(x)'') fence
   \<and> extract_code_from_markdown (ustr ''x = 1'' @ [10] @ ustr ''print(x)'') = []"
  using extract_no_fence [of "ustr ''x = 1'' @ [10] @ ustr ''print(x)''"]
  by (simp add: ustr_def fence_def startswith_def)

text \<open>
  Claim C9: no collected line, and no line of the returned text, starts with the fence
  marker after trimming, whatever blocks the text opens, closes or leaves open.
\<close>

theorem no_fence_line_in_output:
  "(\<forall>l\<in>set (scan_lines (splitlines text) False []). \<not> startswith (strip l) fence) \<and>
   (\<forall>l\<in>set (splitlines (extract_code_from_markdown text)). \<not> startswith (strip l) fence)"
proof -
  let ?code_lines = "scan_lines (splitlines text) False []"
  have a: "l \<in> set (splitlines text) \<and> \<not> startswith (strip l) fence" if "l \<in> set ?code_lines" for l
    using scan_lines_sound [OF that] by simp
  then have "\<forall>l\<in>set ?code_lines. \<forall>c\<in>set l. \<not> is_linebreak c"
    using splitlines_no_break by blast
  then have "set (splitlines (join [10] ?code_lines)) \<subseteq> set ?code_lines"
    by (rule splitlines_join)
  with a show ?thesis
    unfolding extract_code_from_markdown_def by blast
qed

text \<open>
  The theorem at a text with a closed block and an unterminated second block.
\<close>

theorem no_fence_line_in_output_witness:
  "ustr ''foo'' \<in> set (splitlines (extract_code_from_markdown
       (fence_python @ [10] @ ustr ''foo'' @ [10] @ fence @ [10] @ fence_python @ [10] @ ustr ''bar'')))
   \<and> \<not> startswith (strip (ustr ''foo'')) fence"
  using no_fence_line_in_output [of
      "fence_python @ [10] @ ustr ''foo'' @ [10] @ fence @ [10] @ fence_python @ [10] @ ustr ''bar''"]
  by (simp add: str_eval)

section \<open>Properties of the cleanup\<close>

lemma replace_Nil: "replace [] old new = (if old = [] then new else [])"
  by (subst replace.simps) simp

lemma replace_Cons:
  "old \<noteq> [] \<Longrightarrow> replace (c # cs) old new =
     (if startswith (c # cs) old then new @ replace (drop (length old) (c # cs)) old new
      else c # replace cs old new)"
  by (subst replace.simps) (simp only: list.sel list.distinct if_False)

lemma replace_absent: "old \<noteq> [] \<Longrightarrow> \<not> contains s old \<Longrightarrow> replace s old new = s"
proof (induction s)
  case Nil
  then show ?case by (simp add: replace_Nil)
next
  case (Cons c cs)
  from Cons.prems have "\<not> startswith (c # cs) old" "\<not> contains cs old" by simp_all
  with Cons.IH Cons.prems(1) show ?case by (simp add: replace_Cons)
qed

lemma fence_head: "startswith (replace s fence []) [96] \<Longrightarrow> startswith s [96]"
proof (induction s fence "[] :: str" rule: replace.induct)
  case (1 s)
  show ?case
  proof (cases "s = []")
    case True
    with "1.prems" show ?thesis by (simp add: replace_Nil fence_def startswith_def)
  next
    case ne: False
    show ?thesis
    proof (cases "startswith s fence")
      case True
      then show ?thesis by (auto simp: startswith_iff fence_def)
    next
      case False
      with ne "1.prems" have "startswith (hd s # replace (tl s) fence []) [96]"
        by (subst (asm) replace.simps) (simp add: fence_def)
      with ne show ?thesis by (cases s) (auto simp: startswith_def)
    qed
  qed
qed

lemma fence_head2: "startswith (replace s fence []) [96, 96] \<Longrightarrow> startswith s [96, 96]"
proof (induction s fence "[] :: str" rule: replace.induct)
  case (1 s)
  show ?case
  proof (cases "s = []")
    case True
    with "1.prems" show ?thesis by (simp add: replace_Nil fence_def startswith_def)
  next
    case ne: False
    show ?thesis
    proof (cases "startswith s fence")
      case True
      then show ?thesis by (auto simp: startswith_iff fence_def)
    next
      case False
      with ne "1.prems" have "startswith (hd s # replace (tl s) fence []) [96, 96]"
        by (subst (asm) replace.simps) (simp add: fence_def)
      then have "hd s = 96" "startswith (replace (tl s) fence []) [96]"
        by (auto simp: startswith_def)
      moreover from this(2) have "startswith (tl s) [96]" by (rule fence_head)
      ultimately show ?thesis using ne by (cases s) (auto simp: startswith_def)
    qed
  qed
qed

lemma replace_fence_clean: "\<not> contains (replace s fence []) fence"
proof (induction s fence "[] :: str" rule: replace.induct)
  case (1 s)
  have f: "fence \<noteq> []" by (simp add: fence_def)
  show ?case
  proof (cases "s = []")
    case True
    then show ?thesis by (simp add: replace_Nil fence_def)
  next
    case ne: False
    show ?thesis
    proof (cases "startswith s fence")
      case True
      with ne f have "replace s fence [] = replace (drop (length fence) s) fence []"
        by (subst replace.simps) simp
      with "1.hyps"(1) [OF f ne True] show ?thesis by simp
    next
      case False
      with ne f have eq: "replace s fence [] = hd s # replace (tl s) fence []"
        by (subst replace.simps) simp
      have tl: "\<not> contains (replace (tl s) fence []) fence"
        using "1.hyps"(2) [OF f ne False] .
      have "\<not> startswith (hd s # replace (tl s) fence []) fence"
      proof
        assume a: "startswith (hd s # replace (tl s) fence []) fence"
        then have "hd s = 96" "startswith (replace (tl s) fence []) [96, 96]"
          by (auto simp: startswith_def fence_def)
        moreover from this(2) have "startswith (tl s) [96, 96]" by (rule fence_head2)
        ultimately have "startswith s fence"
          using ne by (cases s) (auto simp: startswith_def fence_def)
        with False show False by contradiction
      qed
      with tl eq show ?thesis by simp
    qed
  qed
qed

lemma contains_piece: "contains s p \<Longrightarrow> contains (a @ s @ b) p"
proof -
  assume "contains s p"
  then obtain pre post where "s = pre @ p @ post" unfolding contains_iff by blast
  then have "a @ s @ b = (a @ pre) @ p @ (post @ b)" by simp
  then show ?thesis unfolding contains_iff by blast
qed

lemma contains_strip: "contains (strip s) p \<Longrightarrow> contains s p"
proof -
  assume c: "contains (strip s) p"
  obtain a b where s: "s = a @ strip s @ b" using strip_piece by blast
  from contains_piece [OF c, of a b] s show ?thesis by simp
qed

lemma contains_fence_python: "contains s fence_python \<Longrightarrow> contains s fence"
proof -
  assume "contains s fence_python"
  then obtain pre post where "s = pre @ fence_python @ post"
    unfolding contains_iff by blast
  then have "s = pre @ fence @ (ustr ''python'' @ post)"
    by (simp add: fence_python_def)
  then show ?thesis unfolding contains_iff by blast
qed

lemma strip_strip: "strip (strip s) = strip s"
proof -
  define d where "d = dropWhile is_space s"
  define e where "e = dropWhile is_space (rev d)"
  have st: "strip s = rev e" by (simp add: strip_def d_def e_def)
  have "dropWhile is_space (rev e) = rev e"
  proof (cases "e = []")
    case True
    then show ?thesis by simp
  next
    case False
    have "rev d = takeWhile is_space (rev d) @ e" by (simp add: e_def)
    then have "rev (rev d) = rev (takeWhile is_space (rev d) @ e)" by (rule arg_cong)
    then have dd: "d = rev e @ rev (takeWhile is_space (rev d))" by (simp only: rev_rev_ident rev_append)
    with False have "d \<noteq> []" by auto
    then have "\<not> is_space (hd d)" unfolding d_def by (rule hd_dropWhile)
    moreover from dd False have "hd d = hd (rev e)" by (metis hd_append2 rev_is_Nil_conv)
    ultimately have "\<not> is_space (hd (rev e))" by simp
    with False show ?thesis by (cases "rev e") auto
  qed
  then have a: "dropWhile is_space (rev e) = rev e" .
  have b: "dropWhile is_space e = e" by (simp add: e_def)
  have "strip (rev e) = rev (dropWhile is_space (rev (dropWhile is_space (rev e))))"
    by (simp only: strip_def)
  also have "\<dots> = rev (dropWhile is_space (rev (rev e)))" by (simp only: a)
  also have "\<dots> = rev e" by (simp only: rev_rev_ident b)
  finally show ?thesis by (simp only: st)
qed

text \<open>
  Claim C10: \<open>sanitize_generated_text\<close> is idempotent.  The second \<open>replace\<close> of the first
  pass leaves no fence marker (in a run of backticks it removes three at a time from the
  left, so fewer than three stay), trimming keeps it so, and a trimmed text is trimmed.
\<close>

theorem sanitize_idempotent:
  "sanitize_generated_text (sanitize_generated_text t) = sanitize_generated_text t"
proof -
  define u where "u = sanitize_generated_text t"
  have "\<not> contains u fence"
    unfolding u_def sanitize_generated_text_def
    using replace_fence_clean contains_strip by blast
  moreover from this have "\<not> contains u fence_python"
    using contains_fence_python by blast
  ultimately have r: "replace (replace u fence_python []) fence [] = u"
    by (simp add: replace_absent fence_def fence_python_def)
  have s: "strip u = u"
    unfolding u_def sanitize_generated_text_def by (rule strip_strip)
  have "sanitize_generated_text u = strip (replace (replace u fence_python []) fence [])"
    by (simp only: sanitize_generated_text_def)
  also have "\<dots> = strip u" by (simp only: r)
  also have "\<dots> = u" by (rule s)
  finally show ?thesis unfolding u_def .
qed

section \<open>Properties of the model client\<close>

lemma reraise_logged_simps:
  "fst (reraise_logged e st) = Inl e"
  "calls (snd (reraise_logged e st)) = calls st"
  "sleeps (snd (reraise_logged e st)) = sleeps st"
  "files (snd (reraise_logged e st)) = files st"
  "runs (snd (reraise_logged e st)) = runs st"
  by (simp_all add: reraise_logged_def logger_def)

lemma attempt_fst: "fst (attempt w prompt st) = attempt_result w prompt (calls st)"
  by (simp add: attempt_def attempt_result_def reraise_logged_simps Let_def
      split: sum.splits prod.splits)

lemma attempt_snd:
  "calls (snd (attempt w prompt st)) = calls st + 1"
  "sleeps (snd (attempt w prompt st)) = sleeps st"
  "files (snd (attempt w prompt st)) = files st"
  "runs (snd (attempt w prompt st)) = runs st"
  by (simp_all add: attempt_def reraise_logged_simps Let_def split: sum.splits prod.splits)

lemma retrying_step:
  "retrying w prompt k st =
     (let r = fst (attempt w prompt st); st1 = snd (attempt w prompt st) in
      if \<not> retried r then (r, st1)
      else if 3 \<le> k then (Inl (RetryError (projl r)), st1)
      else retrying w prompt (k + 1) (st1\<lparr>sleeps := sleeps st1 @ [5]\<rparr>))"
  by (subst retrying.simps)
     (simp add: retried_def stop_after_attempt_def wait_fixed_def Let_def
        split: sum.splits prod.splits)


lemma retrying_cases:
  fixes w :: env and prompt :: str and st :: state
  defines "res \<equiv> generate_test_code w prompt st"
    and "a \<equiv> \<lambda>k. attempt_result w prompt (calls st + k)"
  shows
    "(\<not> retried (a 0) \<and> fst res = a 0 \<and> calls (snd res) = calls st + 1 \<and> sleeps (snd res) = sleeps st)
   \<or> (retried (a 0) \<and> \<not> retried (a 1) \<and> fst res = a 1 \<and> calls (snd res) = calls st + 2
        \<and> sleeps (snd res) = sleeps st @ [5])
   \<or> (retried (a 0) \<and> retried (a 1) \<and> \<not> retried (a 2) \<and> fst res = a 2
        \<and> calls (snd res) = calls st + 3 \<and> sleeps (snd res) = sleeps st @ [5, 5])
   \<or> (retried (a 0) \<and> retried (a 1) \<and> retried (a 2) \<and> fst res = Inl (RetryError (projl (a 2)))
        \<and> calls (snd res) = calls st + 3 \<and> sleeps (snd res) = sleeps st @ [5, 5])"
proof -
  define s0 where "s0 = snd (attempt w prompt st)"
  define t0 where "t0 = s0\<lparr>sleeps := sleeps s0 @ [5]\<rparr>"
  define s1 where "s1 = snd (attempt w prompt t0)"
  define t1 where "t1 = s1\<lparr>sleeps := sleeps s1 @ [5]\<rparr>"
  define s2 where "s2 = snd (attempt w prompt t1)"
  have r0: "fst (attempt w prompt st) = a 0"
    by (simp add: attempt_fst a_def)
  have c0: "calls t0 = calls st + 1" and z0: "sleeps t0 = sleeps st @ [5]"
    by (simp_all add: t0_def s0_def attempt_snd)
  have r1: "fst (attempt w prompt t0) = a 1"
    by (simp add: attempt_fst a_def c0)
  have c1: "calls t1 = calls st + 2" and z1: "sleeps t1 = sleeps st @ [5, 5]"
    by (simp_all add: t1_def s1_def attempt_snd c0 z0)
  have r2: "fst (attempt w prompt t1) = a 2"
    by (simp add: attempt_fst a_def c1)
  have step1: "res = (if \<not> retried (a 0) then (a 0, s0) else retrying w prompt 2 t0)"
    unfolding res_def generate_test_code_def
    by (subst retrying_step) (simp add: r0 s0_def t0_def Let_def numeral_2_eq_2)
  have step2: "retrying w prompt 2 t0 = (if \<not> retried (a 1) then (a 1, s1) else retrying w prompt 3 t1)"
    by (subst retrying_step) (simp add: r1 s1_def t1_def Let_def)
  have step3: "retrying w prompt 3 t1 =
      (if \<not> retried (a 2) then (a 2, s2) else (Inl (RetryError (projl (a 2))), s2))"
    by (subst retrying_step) (simp add: r2 s2_def Let_def)
  have cs0: "calls s0 = calls st + 1" "sleeps s0 = sleeps st"
    by (simp_all add: s0_def attempt_snd)
  have cs1: "calls s1 = calls st + 2" "sleeps s1 = sleeps st @ [5]"
    by (simp_all add: s1_def attempt_snd c0 z0)
  have cs2: "calls s2 = calls st + 3" "sleeps s2 = sleeps st @ [5, 5]"
    by (simp_all add: s2_def attempt_snd c1 z1)
  show ?thesis
    by (simp add: step1 step2 step3 cs0 cs1 cs2)
qed

text \<open>
  Claim C3.  With \<open>n\<close> the number of attempts a call of \<open>generate_test_code\<close> makes and
  \<open>a k\<close> the outcome of its \<open>k\<close>-th attempt (from 0): \<open>n\<close> is between 1 and 3; the call sleeps
  5 between two attempts and at no other time; every attempt but the last failed with a
  quota error or a timeout; the first exception of another type ends the call at once,
  as its result; and three quota errors in a row end it after the third attempt with an
  exception (the decorator's \<open>RetryError\<close> around the quota error).
\<close>

theorem generate_test_code_retry_policy:
  fixes w :: env and prompt :: str and st :: state
  defines "res \<equiv> generate_test_code w prompt st"
    and "a \<equiv> \<lambda>k. attempt_result w prompt (calls st + k)"
  defines "n \<equiv> calls (snd res) - calls st"
  shows "calls (snd res) = calls st + n \<and> 1 \<le> n \<and> n \<le> 3 \<and>
     sleeps (snd res) = sleeps st @ replicate (n - 1) 5 \<and>
     (\<forall>k. k < n - 1 \<longrightarrow> a k = Inl ResourceExhausted \<or> a k = Inl TimeoutError) \<and>
     (\<forall>k e. k < 3 \<and> (\<forall>j<k. retried (a j)) \<and> a k = Inl e \<and> e \<noteq> ResourceExhausted \<and> e \<noteq> TimeoutError
        \<longrightarrow> n = k + 1 \<and> fst res = Inl e) \<and>
     ((\<forall>k<3. a k = Inl ResourceExhausted) \<longrightarrow> n = 3 \<and> fst res = Inl (RetryError ResourceExhausted))"
proof -
  have rt: "retried r \<longleftrightarrow> r = Inl ResourceExhausted \<or> r = Inl TimeoutError" for r
    by (auto simp: retried_def retry_if_exception_type_def split: sum.splits)
  have three: "k < 3 \<longleftrightarrow> k = 0 \<or> k = 1 \<or> k = 2" for k :: nat by auto
  have two: "k < 2 \<longleftrightarrow> k = 0 \<or> k = 1" for k :: nat by auto
  have rep: "replicate 2 (5::nat) = [5, 5]" by (simp add: numeral_2_eq_2)
  from retrying_cases [of w prompt st]
  consider
    (first) "\<not> retried (a 0)" "fst res = a 0" "calls (snd res) = calls st + 1"
      "sleeps (snd res) = sleeps st"
  | (second) "retried (a 0)" "\<not> retried (a 1)" "fst res = a 1" "calls (snd res) = calls st + 2"
      "sleeps (snd res) = sleeps st @ [5]"
  | (third) "retried (a 0)" "retried (a 1)" "\<not> retried (a 2)" "fst res = a 2"
      "calls (snd res) = calls st + 3" "sleeps (snd res) = sleeps st @ [5, 5]"
  | (stopped) "retried (a 0)" "retried (a 1)" "retried (a 2)"
      "fst res = Inl (RetryError (projl (a 2)))"
      "calls (snd res) = calls st + 3" "sleeps (snd res) = sleeps st @ [5, 5]"
    unfolding res_def a_def by blast
  then show ?thesis
  proof cases
    case first
    then have n: "n = 1" by (simp add: n_def)
    from first show ?thesis
      unfolding n by (auto simp: rt three two)
  next
    case second
    then have n: "n = 2" by (simp add: n_def)
    from second show ?thesis
      unfolding n by (auto simp: rt three two)
  next
    case third
    then have n: "n = 3" by (simp add: n_def)
    from third show ?thesis
      unfolding n by (auto simp: rt three two rep)
  next
    case stopped
    then have n: "n = 3" by (simp add: n_def)
    from stopped show ?thesis
      unfolding n by (auto simp: rt three two rep)
  qed
qed

text \<open>
  The theorem in a world whose backend always signals quota exhaustion: three attempts,
  two sleeps of 5, then the exception.
\<close>

theorem generate_test_code_retry_policy_witness:
  "fst (generate_test_code quota_world [] initial) = Inl (RetryError ResourceExhausted) \<and>
   calls (snd (generate_test_code quota_world [] initial)) = 3 \<and>
   sleeps (snd (generate_test_code quota_world [] initial)) = [5, 5]"
  using generate_test_code_retry_policy [of quota_world "[]" initial]
  by (auto simp: attempt_result_def quota_world_def initial_def numeral_2_eq_2)

section \<open>Frame properties of the stages\<close>

lemma logger_simps:
  "files (logger lvl msg st) = files st"
  "calls (logger lvl msg st) = calls st"
  "runs (logger lvl msg st) = runs st"
  "sleeps (logger lvl msg st) = sleeps st"
  "log (logger lvl msg st) = log st @ [(lvl, msg)]"
  by (simp_all add: logger_def)

lemma write_file_simps:
  "files (write_file path content st) = (files st)(path \<mapsto> content)"
  "calls (write_file path content st) = calls st"
  "runs (write_file path content st) = runs st"
  "log (write_file path content st) = log st"
  by (simp_all add: write_file_def)

lemma attempt_log: "set (log st) \<subseteq> set (log (snd (attempt w prompt st)))"
  by (auto simp: attempt_def reraise_logged_def logger_def Let_def split: sum.splits prod.splits)

lemma retrying_frame:
  "files (snd (retrying w prompt k st)) = files st \<and>
   runs (snd (retrying w prompt k st)) = runs st \<and>
   set (log st) \<subseteq> set (log (snd (retrying w prompt k st)))"
proof (induction "3 - k" arbitrary: k st)
  case 0
  then have "3 \<le> k" by simp
  then show ?case
    using attempt_log [where st = st and w = w and prompt = prompt]
    by (subst (1 2 3) retrying_step) (simp add: Let_def attempt_snd)
next
  case (Suc n)
  let ?s1 = "snd (attempt w prompt st)"
  let ?t = "?s1\<lparr>sleeps := sleeps ?s1 @ [5]\<rparr>"
  from Suc.hyps(2) have n: "n = 3 - (k + 1)" and k: "\<not> 3 \<le> k" by simp_all
  from Suc.hyps(1) [OF n, of ?t]
  have ih: "files (snd (retrying w prompt (k + 1) ?t)) = files st"
    "runs (snd (retrying w prompt (k + 1) ?t)) = runs st"
    "set (log ?s1) \<subseteq> set (log (snd (retrying w prompt (k + 1) ?t)))"
    by (simp_all add: attempt_snd)
  from ih(3) attempt_log [where st = st and w = w and prompt = prompt]
  have lg: "set (log st) \<subseteq> set (log (snd (retrying w prompt (k + 1) ?t)))"
    by blast
  show ?case
    using k ih(1,2) lg attempt_log [where st = st and w = w and prompt = prompt]
    by (subst (1 2 3) retrying_step) (simp add: Let_def attempt_snd)
qed

lemma generate_frame:
  "files (snd (generate_test_code w prompt st)) = files st"
  "runs (snd (generate_test_code w prompt st)) = runs st"
  "set (log st) \<subseteq> set (log (snd (generate_test_code w prompt st)))"
  using retrying_frame [of w prompt 1 st] by (simp_all add: generate_test_code_def)

lemma generate_frame_eq:
  assumes "generate_test_code w prompt st = (r, st1)"
  shows "files st1 = files st" "runs st1 = runs st" "set (log st) \<subseteq> set (log st1)"
  using generate_frame [where w = w and prompt = prompt and st = st] assms by simp_all

lemma generate_first_try:
  "\<not> retried (attempt_result w prompt (calls st)) \<Longrightarrow>
   generate_test_code w prompt st = attempt w prompt st"
  unfolding generate_test_code_def
  by (subst retrying_step) (simp add: Let_def attempt_fst prod_eq_iff)

lemma generate_returns:
  assumes "attempt_result w prompt (calls st) = Inr v"
  shows "generate_test_code w prompt st = (Inr v, snd (generate_test_code w prompt st))"
    and "calls (snd (generate_test_code w prompt st)) = calls st + 1"
proof -
  have "\<not> retried (attempt_result w prompt (calls st))"
    by (simp add: assms retried_def)
  then have g: "generate_test_code w prompt st = attempt w prompt st"
    by (rule generate_first_try)
  show "generate_test_code w prompt st = (Inr v, snd (generate_test_code w prompt st))"
    by (simp add: g prod_eq_iff attempt_fst assms)
  show "calls (snd (generate_test_code w prompt st)) = calls st + 1"
    by (simp add: g attempt_snd)
qed


lemma log_files_simps:
  "files (log_files paths st) = files st"
  "calls (log_files paths st) = calls st"
  "runs (log_files paths st) = runs st"
  unfolding log_files_def by (induction paths arbitrary: st) (simp_all add: logger_simps)

lemma report_simps:
  "files (report passed failed st) = files st"
  "calls (report passed failed st) = calls st"
  by (simp_all add: report_def log_files_simps logger_simps)

lemma run_test_files: "files (snd (run_test w rs test_file)) = files (snd rs)"
  by (cases rs) (simp add: run_test_def Let_def logger_simps split: sum.splits)

lemma execution_stage_files: "files (snd (execution_stage w created st)) = files st"
proof -
  have "files (snd (foldl (run_test w) rs created)) = files (snd rs)" for rs
    by (induction created arbitrary: rs) (simp_all add: run_test_files)
  then show ?thesis by (simp add: execution_stage_def)
qed

lemma execution_stage_files_eq:
  "execution_stage w created st = (test_results, st') \<Longrightarrow> files st' = files st"
  using execution_stage_files [of w created st] by simp

text \<open>
  The keys of \<open>test_results\<close> are distinct, so \<open>failed_tests\<close> names no file twice.
\<close>

lemma dict_set_keys: "set (map fst (dict_set d k v)) = insert k (set (map fst d))"
proof (induction d)
  case Nil
  then show ?case by simp
next
  case (Cons kv d)
  then show ?case by (cases kv) (simp add: insert_commute)
qed

lemma dict_set_distinct: "distinct (map fst d) \<Longrightarrow> distinct (map fst (dict_set d k v))"
proof (induction d)
  case Nil
  then show ?case by simp
next
  case (Cons kv d)
  obtain k' v' where kv: "kv = (k', v')" by (cases kv)
  show ?case
  proof (cases "k' = k")
    case True
    with Cons.prems kv show ?thesis by simp
  next
    case False
    from Cons.prems kv have "k' \<notin> set (map fst d)" "distinct (map fst d)" by simp_all
    with False Cons.IH have "k' \<notin> set (map fst (dict_set d k v))" "distinct (map fst (dict_set d k v))"
      by (simp_all only: dict_set_keys) simp_all
    with False kv show ?thesis by simp
  qed
qed

lemma execution_stage_distinct: "distinct (map fst (fst (execution_stage w created st)))"
proof -
  have "distinct (map fst (fst rs)) \<Longrightarrow> distinct (map fst (fst (foldl (run_test w) rs created)))" for rs
  proof (induction created arbitrary: rs)
    case Nil
    then show ?case by simp
  next
    case (Cons p ps)
    have "distinct (map fst (fst (run_test w rs p)))"
      using Cons.prems
      by (cases rs) (simp add: run_test_def Let_def dict_set_distinct split: sum.splits)
    from Cons.IH [OF this] show ?case by simp
  qed
  from this [of "([], st)"] show ?thesis by (simp add: execution_stage_def)
qed

lemma failed_tests_distinct:
  "distinct (map fst (filter (\<lambda>kv. \<not> snd kv) (fst (execution_stage w created st))))"
  using execution_stage_distinct [of w created st] by (rule distinct_map_filter)

lemma repair_one_frame:
  "path \<noteq> test_file \<Longrightarrow> files (repair_one w test_file test_code st) path = files st path"
  "set (log st) \<subseteq> set (log (repair_one w test_file test_code st))"
proof -
  obtain r st1 where g: "generate_test_code w (repair_prompt test_code) st = (r, st1)"
    by (cases "generate_test_code w (repair_prompt test_code) st")
  note fr = generate_frame_eq [OF g]
  show "path \<noteq> test_file \<Longrightarrow> files (repair_one w test_file test_code st) path = files st path"
    by (simp add: repair_one_def g fr(1) Let_def logger_simps write_file_simps
        split: sum.splits option.splits)
  show "set (log st) \<subseteq> set (log (repair_one w test_file test_code st))"
    using fr(3)
    by (auto simp: repair_one_def g Let_def logger_simps write_file_simps
        split: sum.splits option.splits)
qed

lemma repair_loop_frame:
  "(path \<notin> set failed_tests \<longrightarrow> files (snd (repair_loop w failed_tests st)) path = files st path) \<and>
   set (log st) \<subseteq> set (log (snd (repair_loop w failed_tests st)))"
proof (induction failed_tests arbitrary: st)
  case Nil
  then show ?case by simp
next
  case (Cons f fs)
  show ?case
  proof (cases "files st f")
    case None
    then show ?thesis by simp
  next
    case (Some c)
    have a: "path \<noteq> f \<Longrightarrow> files (repair_one w f c st) path = files st path"
      by (rule repair_one_frame(1))
    have b: "set (log st) \<subseteq> set (log (repair_one w f c st))"
      by (rule repair_one_frame(2))
    from Cons.IH [of "repair_one w f c st"] a b Some
    show ?thesis by auto
  qed
qed

lemma repair_loop_append:
  "repair_loop w (xs @ ys) st =
     (case repair_loop w xs st of (None, s) \<Rightarrow> repair_loop w ys s | (Some e, s) \<Rightarrow> (Some e, s))"
  by (induction xs arbitrary: st) (simp_all split: option.splits)



lemmas world_eval = base_world_def fail_first_def fail_second_def approving_def missing_root_def
  only_init_def two_modules_def one_artifact_def tests_is_file_def initial_def reply_def

lemmas response_eval = attempt_result_def extract_text_from_response_def has_nonempty_def
  first_text_def attr_text_def from_dict_def hasattr_def no_method_def


section \<open>Response normalization\<close>

text \<open>
  Claim C1 at the empty dict: the response matches none of the recognized shapes, and
  \<open>extract_text_from_response\<close> returns \<open>None\<close>, raising nothing and logging nothing.  The
  \<open>dict\<close> branch is entered and its inner \<open>if\<close>/\<open>elif\<close> has no \<open>else\<close>, so the \<open>raise\<close> of the
  last branch is not reached.
\<close>

theorem empty_dict_returns_None:
  "extract_text_from_response (PDict []) = (Inr PNone, [])"
  by (simp add: extract_text_from_response_def has_nonempty_def from_dict_def)

section \<open>The generation stage isolates failures\<close>



section \<open>The repair stage\<close>

text \<open>
  Claim C5.  The operator approved; the loop over the failed artifacts (no path twice)
  reaches \<open>test_file\<close>, whose content is \<open>test_code\<close>; the model answers, and the extracted
  and sanitized answer does not compile (\<open>SyntaxError\<close>).  Then the iteration logs the
  syntax error and writes nothing, and when the stage ends the file still has the content
  \<open>test_code\<close>.
\<close>

theorem invalid_repair_keeps_artifact:
  assumes approved: "py_lower (approval w) = ustr ''yes''"
    and keys: "distinct (earlier @ test_file # later)"
    and reached: "repair_loop w earlier st = (None, s)"
    and content: "files st test_file = Some test_code"
    and answer: "generate_test_code w (repair_prompt test_code) s = (Inr v, s1)"
    and extracted: "extract_code v = Inr code"
    and invalid: "compile_source w (sanitize_generated_text code) = Some SyntaxError"
  shows "repair_one w test_file test_code s = logger ERROR (SyntaxErrorInFix test_file SyntaxError) s1 \<and>
    files (repair_one w test_file test_code s) = files s \<and>
    files (snd (repair_stage w (earlier @ test_file # later) st)) test_file = Some test_code \<and>
    (ERROR, SyntaxErrorInFix test_file SyntaxError)
      \<in> set (log (snd (repair_stage w (earlier @ test_file # later) st)))"
proof -
  let ?s' = "repair_one w test_file test_code s"
  have one: "?s' = logger ERROR (SyntaxErrorInFix test_file SyntaxError) s1"
    by (simp add: repair_one_def answer extracted invalid)
  have same: "files ?s' = files s"
    by (simp add: one logger_simps generate_frame_eq(1) [OF answer])
  from keys have "test_file \<notin> set earlier" "test_file \<notin> set later" by auto
  with repair_loop_frame [of test_file earlier w st] reached
  have before: "files s test_file = files st test_file" by simp
  with content have here: "files s test_file = Some test_code" by simp
  have whole: "repair_stage w (earlier @ test_file # later) st = repair_loop w later ?s'"
    by (simp add: repair_stage_def approved repair_loop_append reached here)
  have "files (snd (repair_loop w later ?s')) test_file = files ?s' test_file"
    using repair_loop_frame [of test_file later w ?s'] \<open>test_file \<notin> set later\<close> by simp
  with same here have kept: "files (snd (repair_loop w later ?s')) test_file = Some test_code"
    by simp
  have "(ERROR, SyntaxErrorInFix test_file SyntaxError) \<in> set (log ?s')"
    by (simp add: one logger_simps)
  with repair_loop_frame [of test_file later w ?s']
  have logged: "(ERROR, SyntaxErrorInFix test_file SyntaxError)
      \<in> set (log (snd (repair_loop w later ?s')))"
    by blast
  from one same kept logged show ?thesis by (simp add: whole)
qed

text \<open>
  The theorem for one failed artifact in a world whose \<open>compile\<close> rejects the answer.
\<close>

theorem invalid_repair_keeps_artifact_witness:
  "files (snd (repair_stage approving [ustr ''/p/tests/test_a.py''] one_artifact))
     (ustr ''/p/tests/test_a.py'') = Some (ustr ''old'') \<and>
   (ERROR, SyntaxErrorInFix (ustr ''/p/tests/test_a.py'') SyntaxError)
     \<in> set (log (snd (repair_stage approving [ustr ''/p/tests/test_a.py''] one_artifact)))"
proof -
  let ?f = "ustr ''/p/tests/test_a.py''"
  let ?t = "fence_python @ [10] @ ustr ''pass'' @ [10] @ fence"
  let ?p = "repair_prompt (ustr ''old'')"
  have r: "attempt_result approving ?p (calls one_artifact) = Inr (PStr ?t)"
    by (simp add: world_eval response_eval ustr_def)
  have approved: "py_lower (approval approving) = ustr ''yes''"
    by (simp add: world_eval py_lower_def ustr_def)
  have content: "files one_artifact ?f = Some (ustr ''old'')"
    by (simp add: world_eval)
  have invalid: "compile_source approving (sanitize_generated_text (extract_code_from_markdown ?t))
      = Some SyntaxError"
    by (simp add: world_eval)
  from invalid_repair_keeps_artifact [of approving "[]" ?f "[]" one_artifact one_artifact
      "ustr ''old''" "PStr ?t" "snd (generate_test_code approving ?p one_artifact)"
      "extract_code_from_markdown ?t", OF approved _ _ content generate_returns(1) [OF r] _ invalid]
  show ?thesis by simp
qed

text \<open>
  Claim C7.  When the answer to the prompt is not \<open>yes\<close> (in any letter case), the repair
  stage does nothing: it returns the state it was given, so every failed artifact has the
  content it had, and at the end of the run the files are those the generation stage
  left (those of the start, when the run ends before that stage).
\<close>

theorem declined_repair_changes_nothing:
  assumes declined: "py_lower (approval w) \<noteq> ustr ''yes''"
  shows "repair_stage w failed_tests st = (None, st) \<and>
    (\<forall>test_file \<in> set failed_tests.
       files (snd (repair_stage w failed_tests st)) test_file = files st test_file) \<and>
    files (snd (main w st)) =
      (if src_exists w \<and> makedirs w (test_dir w) st = None \<and> discover w \<noteq> []
       then files (snd (generation_stage w (discover w)
              ([], log_files (discover w) (logger INFO FoundPythonFiles st))))
       else files st)"
proof -
  have stage: "repair_stage w fs s = (None, s)" for fs s
    using declined by (simp add: repair_stage_def)
  have "files (snd (main w st)) =
      (if src_exists w \<and> makedirs w (test_dir w) st = None \<and> discover w \<noteq> []
       then files (snd (generation_stage w (discover w)
              ([], log_files (discover w) (logger INFO FoundPythonFiles st))))
       else files st)"
    by (auto simp: main_def stage Let_def logger_simps report_simps
        split: prod.splits sum.splits option.splits dest: execution_stage_files_eq)
  with stage show ?thesis by simp
qed

text \<open>
  The theorem in a world whose operator answers \<open>no\<close>.
\<close>

theorem declined_repair_changes_nothing_witness:
  "py_lower (approval base_world) \<noteq> ustr ''yes'' \<and>
   repair_stage base_world [ustr ''/p/tests/test_a.py''] one_artifact = (None, one_artifact)"
  using declined_repair_changes_nothing [of base_world "[ustr ''/p/tests/test_a.py'']" one_artifact]
  by (simp add: world_eval py_lower_def ustr_def)

section \<open>Discovery and the end of the process\<close>




end
